theory Spec2Isabelle
  imports Main "HOL-Library.Multiset"
begin

section \<open>Text as sequences of code points\<close>

text \<open>
  A Python \<open>str\<close> is a sequence of Unicode code points, and \<open>len\<close>, indexing and the
  \<open>re\<close> module all work on code points. A string is therefore a list of code points,
  each a natural number; an 8-bit \<open>char\<close> could not hold U+4E00.
\<close>

type_synonym ustr = "nat list"

definition of_str :: "string \<Rightarrow> ustr" where
  "of_str s = map of_char s"

text \<open>The code points for which \<open>str.isspace\<close> holds: the separators of \<open>str.split()\<close>
  and the characters removed by \<open>str.strip()\<close>.\<close>

definition is_space :: "nat \<Rightarrow> bool" where
  "is_space c \<longleftrightarrow>
     (0x09 \<le> c \<and> c \<le> 0x0D) \<or> (0x1C \<le> c \<and> c \<le> 0x20) \<or> c = 0x85 \<or> c = 0xA0 \<or>
     c = 0x1680 \<or> (0x2000 \<le> c \<and> c \<le> 0x200A) \<or> c = 0x2028 \<or> c = 0x2029 \<or>
     c = 0x202F \<or> c = 0x205F \<or> c = 0x3000"

text \<open>The character class \<open>[U+4E00-U+9FFF]\<close>.\<close>

definition is_cjk :: "nat \<Rightarrow> bool" where
  "is_cjk c \<longleftrightarrow> 0x4E00 \<le> c \<and> c \<le> 0x9FFF"

text \<open>The character class \<open>[a-zA-Z]\<close>.\<close>

definition is_ascii_letter :: "nat \<Rightarrow> bool" where
  "is_ascii_letter c \<longleftrightarrow> (0x41 \<le> c \<and> c \<le> 0x5A) \<or> (0x61 \<le> c \<and> c \<le> 0x7A)"

definition is_ascii_digit :: "nat \<Rightarrow> bool" where
  "is_ascii_digit c \<longleftrightarrow> 0x30 \<le> c \<and> c \<le> 0x39"

section \<open>The environment of the analyzer\<close>

text \<open>
  Three things the methods use are not code of the analyzer but of the Python runtime and
  of an optional package, and are taken as parameters:
  \<^item> \<open>str.lower\<close>, the Unicode lower-casing of a whole string;
  \<^item> which code points above U+007F the \<open>re\<close> module counts as word characters
    (\<open>\w\<close> is \<open>str.isalnum\<close> or an underscore), a table of the Unicode database;
  \<^item> the outcome of \<open>import jieba\<close>: the exception \<open>ImportError\<close>, or the module,
    of which only \<open>jieba.cut\<close> is used, a function from a text to its segments.
\<close>

datatype error = ImportError

record env =
  str_lower :: "ustr \<Rightarrow> ustr"
  uni_alnum :: "nat \<Rightarrow> bool"
  import_jieba :: "error + (ustr \<Rightarrow> ustr list)"

text \<open>\<open>\w\<close> of a \<open>str\<close> pattern: ASCII letters, digits and the underscore, and above
  U+007F whatever the Unicode database calls alphanumeric.\<close>

definition is_word :: "env \<Rightarrow> nat \<Rightarrow> bool" where
  "is_word rt c \<longleftrightarrow>
     (if c < 0x80 then is_ascii_letter c \<or> is_ascii_digit c \<or> c = 0x5F else uni_alnum rt c)"

section \<open>The analyzer object\<close>

text \<open>The fields set by \<open>__init__\<close>; \<open>self.soup\<close> is \<open>None\<close> until a page is fetched.\<close>

record 'soup analyzer =
  self_url :: ustr
  self_soup :: "'soup option"
  self_text :: ustr

record word_stats =
  chinese_chars :: nat
  english_words :: nat
  total_chars :: nat

section \<open>String operations of the runtime\<close>

text \<open>\<open>s.split()\<close>: skip white space, then a word runs up to the next white space.\<close>

function split_ws :: "ustr \<Rightarrow> ustr list" where
  "split_ws s =
     (case dropWhile is_space s of
        [] \<Rightarrow> []
      | c # cs \<Rightarrow> (c # takeWhile (\<lambda>x. \<not> is_space x) cs)
                   # split_ws (dropWhile (\<lambda>x. \<not> is_space x) cs))"
  by pat_completeness auto
termination
proof (relation "measure length")
  fix s :: ustr and c cs
  assume h: "dropWhile is_space s = c # cs"
  have "length (dropWhile (\<lambda>x. \<not> is_space x) cs) \<le> length cs"
    by (rule length_dropWhile_le)
  moreover have "length (c # cs) \<le> length s"
    using length_dropWhile_le [of is_space s] h by simp
  ultimately show "(dropWhile (\<lambda>x. \<not> is_space x) cs, s) \<in> measure length"
    by simp
qed simp

declare split_ws.simps [simp del]

text \<open>\<open>sep.join(xs)\<close>.\<close>

fun join :: "ustr \<Rightarrow> ustr list \<Rightarrow> ustr" where
  "join sep [] = []"
| "join sep [x] = x"
| "join sep (x # y # ys) = x @ sep @ join sep (y # ys)"

text \<open>\<open>s.strip()\<close>: white space removed at both ends.\<close>

definition strip :: "ustr \<Rightarrow> ustr" where
  "strip s = rev (dropWhile is_space (rev (dropWhile is_space s)))"

section \<open>The regular expressions\<close>

text \<open>
  \<open>\b\<close> holds at a position when exactly one of the character before it and the
  character after it is a word character; a missing neighbour (either end of the text)
  counts as a non-word character.
\<close>

definition word_at :: "(nat \<Rightarrow> bool) \<Rightarrow> nat option \<Rightarrow> bool" where
  "word_at W p = (case p of None \<Rightarrow> False | Some c \<Rightarrow> W c)"

definition at_boundary :: "(nat \<Rightarrow> bool) \<Rightarrow> nat option \<Rightarrow> nat option \<Rightarrow> bool" where
  "at_boundary W p n \<longleftrightarrow> word_at W p \<noteq> word_at W n"

definition nth_opt :: "'a list \<Rightarrow> nat \<Rightarrow> 'a option" where
  "nth_opt xs i = (if i < length xs then Some (xs ! i) else None)"

text \<open>
  The greedy repetition \<open>[a-zA-Z]{m,}\<close> followed by \<open>\b\<close>: the engine first takes
  every letter there is, and gives letters back one at a time until the closing \<open>\b\<close>
  holds or fewer than \<open>m\<close> letters are left. \<open>try_len W m k s\<close> is that search from
  \<open>k\<close> letters downwards, on the text \<open>s\<close> that starts at the match position; it
  returns the length of the match.
\<close>

fun try_len :: "(nat \<Rightarrow> bool) \<Rightarrow> nat \<Rightarrow> nat \<Rightarrow> ustr \<Rightarrow> nat option" where
  "try_len W m 0 s = None"
| "try_len W m (Suc k) s =
     (if Suc k < m then None
      else if at_boundary W (Some (s ! k)) (nth_opt s (Suc k)) then Some (Suc k)
      else try_len W m k s)"

text \<open>The pattern \<open>\b[a-zA-Z]{m,}\b\<close> tried at one position: \<open>p\<close> is the character
  before the position, \<open>s\<close> the text from the position on.\<close>

definition match_word :: "(nat \<Rightarrow> bool) \<Rightarrow> nat \<Rightarrow> nat option \<Rightarrow> ustr \<Rightarrow> nat option" where
  "match_word W m p s =
     (if at_boundary W p (nth_opt s 0)
      then try_len W m (length (takeWhile is_ascii_letter s)) s
      else None)"

text \<open>\<open>re.findall\<close> of that pattern: scan from left to right; after a match the search
  goes on behind it, otherwise one character further.\<close>

function findall_word :: "(nat \<Rightarrow> bool) \<Rightarrow> nat \<Rightarrow> nat option \<Rightarrow> ustr \<Rightarrow> ustr list" where
  "findall_word W m p [] = []"
| "findall_word W m p (c # cs) =
     (case match_word W m p (c # cs) of
        Some (Suc k) \<Rightarrow>
          take (Suc k) (c # cs) # findall_word W m (Some ((c # cs) ! k)) (drop k cs)
      | _ \<Rightarrow> findall_word W m (Some c) cs)"
  by pat_completeness auto
termination
  by (relation "measure (\<lambda>(W, m, p, s). length s)") auto

text \<open>\<open>re.findall(r'[U+4E00-U+9FFF]', s)\<close>: one match per ideograph.\<close>

definition findall_cjk :: "ustr \<Rightarrow> ustr list" where
  "findall_cjk s = map (\<lambda>c. [c]) (filter is_cjk s)"

text \<open>\<open>re.match(r'[U+4E00-U+9FFF]+', w)\<close>: the pattern is tried at the start of \<open>w\<close>
  only and need not reach its end; the result is the matched prefix, or \<open>None\<close>.\<close>

definition match_cjk :: "ustr \<Rightarrow> ustr option" where
  "match_cjk w = (case takeWhile is_cjk w of [] \<Rightarrow> None | c # cs \<Rightarrow> Some (c # cs))"

section \<open>\<open>collections.Counter\<close>\<close>

text \<open>
  A \<open>Counter\<close> is a dictionary, and a dictionary keeps its keys in the order of their
  first insertion: an association list, a new key added at the end, the count of a known
  key raised where it stands.
\<close>

fun counter_add :: "'a \<Rightarrow> ('a \<times> nat) list \<Rightarrow> ('a \<times> nat) list" where
  "counter_add w [] = [(w, 1)]"
| "counter_add w ((k, c) # d) =
     (if k = w then (k, c + 1) # d else (k, c) # counter_add w d)"

definition Counter :: "'a list \<Rightarrow> ('a \<times> nat) list" where
  "Counter ws = foldl (\<lambda>d w. counter_add w d) [] ws"

text \<open>\<open>sorted(items, key=count, reverse=True)\<close>: the sort is stable, and with
  \<open>reverse=True\<close> it reverses the list, sorts it and reverses the result, so that equal
  keys keep their order.\<close>

definition sorted_by_count_desc :: "('a \<times> nat) list \<Rightarrow> ('a \<times> nat) list" where
  "sorted_by_count_desc items = rev (sort_key snd (rev items))"

text \<open>\<open>Counter.most_common(n)\<close> with an integer \<open>n\<close> is
  \<open>heapq.nlargest(n, items, key=count)\<close>: the first \<open>n\<close> entries of the items sorted
  by falling count, and nothing for \<open>n \<le> 0\<close>.\<close>

definition most_common :: "int \<Rightarrow> ('a \<times> nat) list \<Rightarrow> ('a \<times> nat) list" where
  "most_common n items = (if n \<le> 0 then [] else take (nat n) (sorted_by_count_desc items))"

section \<open>\<open>WebContentAnalyzer.count_words\<close>\<close>

definition cleaned_text :: "ustr \<Rightarrow> ustr" where
  "cleaned_text t = join [0x20] (split_ws t)"

definition count_words :: "env \<Rightarrow> 'soup analyzer \<Rightarrow> word_stats \<times> 'soup analyzer" where
  "count_words rt self =
     (let cleaned = cleaned_text (self_text self) in
      (\<lparr> chinese_chars = length (findall_cjk cleaned),
         english_words = length (findall_word (is_word rt) 1 None cleaned),
         total_chars = length cleaned \<rparr>, self))"

section \<open>\<open>WebContentAnalyzer.extract_keywords\<close>\<close>

definition en_stop_words :: "ustr set" where
  "en_stop_words = set (map of_str
     [''the'', ''and'', ''for'', ''are'', ''but'', ''not'', ''you'', ''all'',
      ''can'', ''her'', ''was'', ''one'', ''our'', ''out'', ''this'', ''that'',
      ''with'', ''from'', ''have'', ''has'', ''had'', ''will'', ''more''])"

definition zh_stop_words :: "ustr set" where
  "zh_stop_words = set
     [[0x7684], [0x4E86], [0x548C], [0x662F], [0x5728], [0x4E5F], [0x6709], [0x8207],
      [0x5C07], [0x53CA], [0x6216], [0x5C31], [0x90FD], [0x800C], [0x53CA], [0x8457],
      [0x4EE5], [0x5C0D], [0x7531], [0x53CA, 0x5176], [0x7B49], [0x4E2D],
      [0x4E4B, 0x4E00], [0x4E26]]"

definition filtered_en_words :: "env \<Rightarrow> ustr \<Rightarrow> ustr list" where
  "filtered_en_words rt t =
     filter (\<lambda>w. w \<notin> en_stop_words) (findall_word (is_word rt) 3 None (str_lower rt t))"

text \<open>The \<open>try\<close> block: the import fails with \<open>ImportError\<close>, which the handler turns
  into no segments at all, or \<open>jieba.cut\<close> segments the text.\<close>

definition zh_words :: "env \<Rightarrow> ustr \<Rightarrow> ustr list" where
  "zh_words rt t = (case import_jieba rt of Inl ImportError \<Rightarrow> [] | Inr jieba_cut \<Rightarrow> jieba_cut t)"

text \<open>The condition of the list comprehension: \<open>w.strip()\<close> is true when it is not
  empty, and the result of \<open>re.match\<close> is true when it is a match.\<close>

definition keep_zh :: "ustr \<Rightarrow> bool" where
  "keep_zh w \<longleftrightarrow> strip w \<noteq> [] \<and> w \<notin> zh_stop_words \<and> match_cjk w \<noteq> None"

definition filtered_zh_words :: "ustr list \<Rightarrow> ustr list" where
  "filtered_zh_words zs = filter keep_zh zs"

definition all_words :: "env \<Rightarrow> ustr \<Rightarrow> ustr list" where
  "all_words rt t = filtered_en_words rt t @ filtered_zh_words (zh_words rt t)"

definition extract_keywords ::
  "env \<Rightarrow> int \<Rightarrow> 'soup analyzer \<Rightarrow> (ustr \<times> nat) list \<times> 'soup analyzer" where
  "extract_keywords rt top_n self =
     (most_common top_n (Counter (all_words rt (self_text self))), self)"

section \<open>Auxiliary notions for the statements\<close>

text \<open>The position of the first occurrence of \<open>w\<close> in a token stream (the length of the
  stream when \<open>w\<close> does not occur).\<close>

fun first_index :: "'a list \<Rightarrow> 'a \<Rightarrow> nat" where
  "first_index [] w = 0"
| "first_index (x # xs) w = (if x = w then 0 else Suc (first_index xs w))"

text \<open>\<open>__init__\<close>: a fresh analyzer has no soup and the empty text.\<close>

definition init :: "ustr \<Rightarrow> 'soup analyzer" where
  "init u = \<lparr> self_url = u, self_soup = None, self_text = [] \<rparr>"

subsection \<open>Concrete environments and pages for the examples\<close>

text \<open>Lower-casing of the ASCII letters, which is what \<open>str.lower\<close> does on a text whose
  other characters have no case.\<close>

definition ascii_lower :: "ustr \<Rightarrow> ustr" where
  "ascii_lower s = map (\<lambda>c. if 0x41 \<le> c \<and> c \<le> 0x5A then c + 0x20 else c) s"

text \<open>A segmenter that cuts a text into its single characters.\<close>

definition char_cut :: "ustr \<Rightarrow> ustr list" where
  "char_cut t = map (\<lambda>c. [c]) t"

definition env_without_jieba :: env where
  "env_without_jieba =
     \<lparr> str_lower = ascii_lower, uni_alnum = is_cjk, import_jieba = Inl ImportError \<rparr>"

definition env_with_cut :: env where
  "env_with_cut =
     \<lparr> str_lower = ascii_lower, uni_alnum = is_cjk, import_jieba = Inr char_cut \<rparr>"

definition demo_page :: "unit analyzer" where
  "demo_page = (init [])\<lparr> self_text := of_str ''Bbb aaa, ccc the AAA bbb  ddd'' \<rparr>"

text \<open>A page that names a dog twice in Chinese (U+72D7) and twice in English, the Chinese
  word first.\<close>

definition mixed_page :: "unit analyzer" where
  "mixed_page = (init [])\<lparr> self_text := [0x72D7] @ of_str '' dog '' @ [0x72D7] @ of_str '' Dog'' \<rparr>"

subsection \<open>Notions for the statements about the cleaned text\<close>

text \<open>Two space characters side by side.\<close>

fun has_double_space :: "ustr \<Rightarrow> bool" where
  "has_double_space (a # b # s) \<longleftrightarrow> (a = 0x20 \<and> b = 0x20) \<or> has_double_space (b # s)"
| "has_double_space _ \<longleftrightarrow> False"

text \<open>A word as \<open>split\<close> returns it: not empty and free of white space.\<close>

definition spaceless :: "ustr \<Rightarrow> bool" where
  "spaceless w \<longleftrightarrow> w \<noteq> [] \<and> (\<forall>c \<in> set w. \<not> is_space c)"

text \<open>
  The maximal runs of ASCII letters of a text, from left to right, each with the character
  before it and the character after it (\<open>None\<close> at an end of the text). \<open>p\<close> is the
  character before the text.
\<close>

function letter_runs :: "nat option \<Rightarrow> ustr \<Rightarrow> (nat option \<times> ustr \<times> nat option) list" where
  "letter_runs p [] = []"
| "letter_runs p (c # cs) =
     (if is_ascii_letter c
      then (let r = c # takeWhile is_ascii_letter cs; rest = dropWhile is_ascii_letter cs
            in (p, r, nth_opt rest 0) # letter_runs (Some (last r)) rest)
      else letter_runs (Some c) cs)"
  by pat_completeness auto
termination
proof (relation "measure (\<lambda>(p, s). length s)")
  fix cs :: ustr
  have "length (dropWhile is_ascii_letter cs) \<le> length cs"
    by (rule length_dropWhile_le)
  then show "\<And>p c x xa. xa = dropWhile is_ascii_letter cs \<Longrightarrow>
      ((Some (last x), xa), (p, c # cs)) \<in> measure (\<lambda>(p, s). length s)"
    by simp
qed simp_all

text \<open>A run of at least \<open>m\<close> letters with no word character on either side.\<close>

definition bounded_run :: "(nat \<Rightarrow> bool) \<Rightarrow> nat \<Rightarrow> nat option \<times> ustr \<times> nat option \<Rightarrow> bool" where
  "bounded_run W m = (\<lambda>(p, r, n). \<not> word_at W p \<and> \<not> word_at W n \<and> m \<le> length r)"

subsection \<open>Further example pages\<close>

text \<open>A page whose text is \<open>abc1\<close>.\<close>

definition digit_page :: "unit analyzer" where
  "digit_page = (init [])\<lparr> self_text := of_str ''abc1'' \<rparr>"

text \<open>The word U+5361 U+62C9 O K (karaoke), a dictionary word that starts with two
  ideographs and ends with two Latin letters, and a segmenter that knows it: it yields the
  word as one segment and cuts any other text into single characters.\<close>

definition karaoke :: ustr where
  "karaoke = [0x5361, 0x62C9, 0x4F, 0x4B]"

definition dict_cut :: "ustr \<Rightarrow> ustr list" where
  "dict_cut t = (if t = karaoke then [karaoke] else char_cut t)"

definition env_with_dict :: env where
  "env_with_dict =
     \<lparr> str_lower = ascii_lower, uni_alnum = is_cjk, import_jieba = Inr dict_cut \<rparr>"

definition karaoke_page :: "unit analyzer" where
  "karaoke_page = (init [])\<lparr> self_text := karaoke \<rparr>"

section \<open>Properties of the counter and of the ranking\<close>

lemma Counter_snoc: "Counter (ws @ [w]) = counter_add w (Counter ws)"
  by (simp add: Counter_def)

lemma keys_counter_add:
  "map fst (counter_add w d) = (if w \<in> fst ` set d then map fst d else map fst d @ [w])"
  by (induction w d rule: counter_add.induct) auto

lemma map_of_counter_add:
  "map_of (counter_add w d) = (map_of d)(w \<mapsto> (case map_of d w of None \<Rightarrow> 1 | Some c \<Rightarrow> c + 1))"
  by (induction w d rule: counter_add.induct) auto

lemma keys_Counter_set: "fst ` set (Counter ws) = set ws"
proof (induction ws rule: rev_induct)
  case Nil
  show ?case by (simp add: Counter_def)
next
  case (snoc w ws)
  have "fst ` set (counter_add w (Counter ws)) = set (map fst (counter_add w (Counter ws)))"
    by simp
  also have "\<dots> = insert w (set ws)"
    using snoc by (auto simp: keys_counter_add)
  finally show ?case by (simp add: Counter_snoc)
qed

lemma keys_Counter_distinct: "distinct (map fst (Counter ws))"
proof (induction ws rule: rev_induct)
  case Nil
  show ?case by (simp add: Counter_def)
next
  case (snoc w ws)
  then show ?case by (simp add: Counter_snoc keys_counter_add)
qed

lemma map_of_Counter:
  "map_of (Counter ws) k = (if k \<in> set ws then Some (count_list ws k) else None)"
proof (induction ws arbitrary: k rule: rev_induct)
  case Nil
  show ?case by (simp add: Counter_def)
next
  case (snoc w ws)
  then show ?case by (simp add: Counter_snoc map_of_counter_add)
qed

lemma Counter_entry:
  "(k, c) \<in> set (Counter ws) \<longleftrightarrow> k \<in> set ws \<and> c = count_list ws k"
proof -
  have "(k, c) \<in> set (Counter ws) \<longleftrightarrow> map_of (Counter ws) k = Some c"
    using map_of_eq_Some_iff [OF keys_Counter_distinct] by fastforce
  then show ?thesis by (auto simp: map_of_Counter)
qed

lemma length_Counter: "length (Counter ws) = card (set ws)"
proof -
  have "card (set ws) = card (set (map fst (Counter ws)))"
    using keys_Counter_set [of ws] by simp
  also have "\<dots> = length (map fst (Counter ws))"
    by (rule distinct_card [OF keys_Counter_distinct])
  finally show ?thesis by simp
qed

lemma first_index_less: "k \<in> set ws \<Longrightarrow> first_index ws k < length ws"
  by (induction ws) auto

lemma first_index_snoc:
  "first_index (ws @ [w]) k = (if k \<in> set ws then first_index ws k else length ws + (if k = w then 0 else 1))"
  by (induction ws) auto

lemma Counter_order:
  "sorted_wrt (\<lambda>a b. first_index ws a < first_index ws b) (map fst (Counter ws))"
proof (induction ws rule: rev_induct)
  case Nil
  show ?case by (simp add: Counter_def)
next
  case (snoc w ws)
  let ?ks = "map fst (Counter ws)"
  have ks: "set ?ks = set ws"
    using keys_Counter_set [of ws] by simp
  have old: "sorted_wrt (\<lambda>a b. first_index (ws @ [w]) a < first_index (ws @ [w]) b) ?ks"
  proof (rule sorted_wrt_mono_rel [OF _ snoc])
    fix a b
    assume "a \<in> set ?ks" "b \<in> set ?ks" "first_index ws a < first_index ws b"
    then show "first_index (ws @ [w]) a < first_index (ws @ [w]) b"
      using ks by (simp add: first_index_snoc)
  qed
  show ?case
  proof (cases "w \<in> set ws")
    case True
    then show ?thesis using old ks by (simp add: Counter_snoc keys_counter_add)
  next
    case False
    have "\<forall>a \<in> set ws. first_index (ws @ [w]) a < first_index (ws @ [w]) w"
      using False by (auto simp: first_index_snoc first_index_less)
    then show ?thesis
      using old ks False by (simp add: Counter_snoc keys_counter_add sorted_wrt_append)
  qed
qed

lemma mset_sorted_by_count_desc: "mset (sorted_by_count_desc xs) = mset xs"
  by (simp add: sorted_by_count_desc_def)

lemma length_sorted_by_count_desc: "length (sorted_by_count_desc xs) = length xs"
  by (simp add: sorted_by_count_desc_def)

lemma set_sorted_by_count_desc: "set (sorted_by_count_desc xs) = set xs"
  by (simp add: sorted_by_count_desc_def)

lemma counts_sorted_by_count_desc:
  "sorted_wrt (\<lambda>a b. b \<le> a) (map snd (sorted_by_count_desc xs))"
proof -
  have "sorted (map snd (sort_key snd (rev xs)))" by simp
  then have "sorted_wrt (\<lambda>a b. b \<le> a) (rev (map snd (sort_key snd (rev xs))))"
    by (simp add: sorted_wrt_rev)
  then show ?thesis by (simp add: sorted_by_count_desc_def rev_map)
qed

lemma stable_sorted_by_count_desc:
  "filter (\<lambda>y. snd y = c) (sorted_by_count_desc xs) = filter (\<lambda>y. snd y = c) xs"
proof -
  have "filter (\<lambda>y. snd y = c) (sort_key snd (rev xs)) = filter (\<lambda>y. snd y = c) (rev xs)"
    by (rule sort_key_stable)
  then show ?thesis by (simp add: sorted_by_count_desc_def rev_filter [symmetric])
qed

lemma distinct_keys_sorted_by_count_desc:
  "distinct (map fst (sorted_by_count_desc xs)) = distinct (map fst xs)"
proof -
  have "mset (map fst (sorted_by_count_desc xs)) = mset (map fst xs)"
    by (simp add: mset_sorted_by_count_desc)
  then show ?thesis by (rule mset_eq_imp_distinct_iff)
qed

lemma sorted_wrt_classes:
  "(\<And>c. sorted_wrt R (filter (\<lambda>y. f y = c) xs)) \<Longrightarrow> sorted_wrt (\<lambda>a b. f a = f b \<longrightarrow> R a b) xs"
proof (induction xs)
  case Nil
  show ?case by simp
next
  case (Cons x xs)
  have tail: "sorted_wrt R (filter (\<lambda>y. f y = c) xs)" for c
    using Cons.prems [of c] by (cases "f x = c") simp_all
  have "\<forall>y \<in> set xs. f x = f y \<longrightarrow> R x y"
    using Cons.prems [of "f x"] by auto
  with Cons.IH [OF tail] show ?case by simp
qed

lemma most_common_subset: "set (most_common n items) \<subseteq> set items"
  using set_take_subset [of "nat n" "sorted_by_count_desc items"]
  by (auto simp: most_common_def set_sorted_by_count_desc)

lemma most_common_ties:
  assumes R: "sorted_wrt R items"
  shows "sorted_wrt (\<lambda>a b. snd a = snd b \<longrightarrow> R a b) (most_common n items)"
proof -
  have "sorted_wrt R (filter (\<lambda>y. snd y = c) (sorted_by_count_desc items))" for c
    using sorted_wrt_filter [OF R] by (simp add: stable_sorted_by_count_desc)
  then have "sorted_wrt (\<lambda>a b. snd a = snd b \<longrightarrow> R a b) (sorted_by_count_desc items)"
    by (rule sorted_wrt_classes)
  then show ?thesis
    by (simp add: most_common_def)
qed

lemma ranked_ties_in_order:
  assumes "i < j" and "j < length (most_common n (Counter ws))"
    and "snd (most_common n (Counter ws) ! i) = snd (most_common n (Counter ws) ! j)"
  shows "first_index ws (fst (most_common n (Counter ws) ! i))
       < first_index ws (fst (most_common n (Counter ws) ! j))"
proof -
  let ?R = "\<lambda>a b. first_index ws (fst a) < first_index ws (fst b)"
  have "sorted_wrt ?R (Counter ws)"
    using Counter_order [of ws] by (simp add: sorted_wrt_map)
  then have "sorted_wrt (\<lambda>a b. snd a = snd b \<longrightarrow> ?R a b) (most_common n (Counter ws))"
    by (rule most_common_ties)
  then show ?thesis
    using assms by (simp add: sorted_wrt_iff_nth_less)
qed

text \<open>
  Claim C2. Among the entries of the output of \<open>extract_keywords\<close> that have the same
  count, the word that occurs first in the combined filtered stream (the filtered Latin
  tokens, then the filtered Chinese segments) stands first: if the word at position \<open>a\<close>
  first occurs before the word at position \<open>b\<close> and their counts are equal, then
  \<open>a < b\<close>.
\<close>
theorem extract_keywords_tie_break:
  assumes "a < length (fst (extract_keywords rt top_n self))"
    and "b < length (fst (extract_keywords rt top_n self))"
    and "snd (fst (extract_keywords rt top_n self) ! a) = snd (fst (extract_keywords rt top_n self) ! b)"
    and "first_index (all_words rt (self_text self)) (fst (fst (extract_keywords rt top_n self) ! a))
       < first_index (all_words rt (self_text self)) (fst (fst (extract_keywords rt top_n self) ! b))"
  shows "a < b"
proof (rule ccontr)
  assume "\<not> a < b"
  then consider "a = b" | "b < a" by linarith
  then show False
  proof cases
    case 1
    with assms(4) show False by simp
  next
    case 2
    from ranked_ties_in_order [OF 2, of top_n "all_words rt (self_text self)"] assms
    show False by (simp add: extract_keywords_def)
  qed
qed

lemma length_most_common:
  "0 < n \<Longrightarrow> length (most_common n items) = min (nat n) (length items)"
  by (simp add: most_common_def length_sorted_by_count_desc min.commute)

lemma counts_most_common: "sorted_wrt (\<lambda>a b. b \<le> a) (map snd (most_common n items))"
  using counts_sorted_by_count_desc [of items]
  by (simp add: most_common_def take_map [symmetric])

text \<open>
  Claim C3. For \<open>top_n > 0\<close> the output of \<open>extract_keywords\<close> has exactly
  \<open>min(top_n, number of distinct filtered tokens)\<close> entries, and its counts never
  increase from one entry to the next.
\<close>
theorem extract_keywords_length_sorted:
  "0 < top_n \<Longrightarrow>
     length (fst (extract_keywords rt top_n self))
       = min (nat top_n) (card (set (all_words rt (self_text self)))) \<and>
     sorted_wrt (\<lambda>c d. d \<le> c) (map snd (fst (extract_keywords rt top_n self)))"
  by (simp add: extract_keywords_def length_most_common length_Counter counts_most_common)

lemma distinct_keys_most_common:
  "distinct (map fst items) \<Longrightarrow> distinct (map fst (most_common n items))"
  by (simp add: most_common_def take_map [symmetric] distinct_keys_sorted_by_count_desc)

text \<open>
  Claim C9. The words of the output of \<open>extract_keywords\<close> are pairwise distinct, and
  each count is positive and is the number of occurrences of its word in the combined
  filtered stream.
\<close>
theorem extract_keywords_distinct_counts:
  "distinct (map fst (fst (extract_keywords rt top_n self))) \<and>
   (\<forall>(w, c) \<in> set (fst (extract_keywords rt top_n self)).
      0 < c \<and> c = count_list (all_words rt (self_text self)) w)"
proof -
  let ?ws = "all_words rt (self_text self)"
  have "distinct (map fst (most_common top_n (Counter ?ws)))"
    by (rule distinct_keys_most_common [OF keys_Counter_distinct])
  moreover have "0 < c \<and> c = count_list ?ws w" if "(w, c) \<in> set (most_common top_n (Counter ?ws))" for w c
  proof -
    from that most_common_subset have "(w, c) \<in> set (Counter ?ws)" by blast
    then have "w \<in> set ?ws" "c = count_list ?ws w" by (simp_all add: Counter_entry)
    then show ?thesis using count_list_0_iff [of ?ws w] by simp
  qed
  ultimately show ?thesis by (auto simp: extract_keywords_def)
qed

text \<open>
  Claim C5. When importing the segmenter raises \<open>ImportError\<close>, \<open>extract_keywords\<close>
  still returns: there are no Chinese segments, and the output is the ranking of the
  filtered Latin tokens alone.
\<close>
theorem extract_keywords_without_jieba:
  "import_jieba rt = Inl ImportError \<Longrightarrow>
     zh_words rt (self_text self) = [] \<and>
     fst (extract_keywords rt top_n self)
       = most_common top_n (Counter (filtered_en_words rt (self_text self)))"
  by (simp add: extract_keywords_def all_words_def zh_words_def filtered_zh_words_def)

text \<open>
  Claim C6. With \<open>top_n \<le> 0\<close>, \<open>extract_keywords\<close> returns the empty list, whatever
  the text and the environment.
\<close>
theorem extract_keywords_nonpositive:
  "top_n \<le> 0 \<Longrightarrow> fst (extract_keywords rt top_n self) = []"
  by (simp add: extract_keywords_def most_common_def)

text \<open>
  Claim C8. In the statistics of \<open>count_words\<close>, \<open>chinese_chars\<close> plus the number of
  characters of the cleaned text outside U+4E00..U+9FFF is \<open>total_chars\<close>, the length of
  the cleaned text; on the empty text all three counts are zero.
\<close>
theorem count_words_partition:
  "chinese_chars (fst (count_words rt self))
     + length (filter (\<lambda>c. \<not> is_cjk c) (cleaned_text (self_text self)))
     = total_chars (fst (count_words rt self)) \<and>
   total_chars (fst (count_words rt self)) = length (cleaned_text (self_text self)) \<and>
   fst (count_words rt (self\<lparr>self_text := []\<rparr>))
     = \<lparr> chinese_chars = 0, english_words = 0, total_chars = 0 \<rparr>"
proof -
  have "length (filter is_cjk s) + length (filter (\<lambda>c. \<not> is_cjk c) s) = length s" for s
    using sum_length_filter_compl [of is_cjk s] by simp
  moreover have "cleaned_text [] = []"
    by (simp add: cleaned_text_def split_ws.simps)
  ultimately show ?thesis
    by (simp add: count_words_def Let_def findall_cjk_def)
qed

text \<open>
  Claim C10. \<open>count_words\<close> and \<open>extract_keywords\<close> leave the analyzer as it was
  (its url, soup and text), so that either method gives the same result after any call
  of the other or of itself.
\<close>
theorem methods_read_only:
  "snd (count_words rt self) = self \<and>
   snd (extract_keywords rt top_n self) = self \<and>
   fst (count_words rt (snd (extract_keywords rt top_n self))) = fst (count_words rt self) \<and>
   fst (extract_keywords rt top_n (snd (count_words rt self))) = fst (extract_keywords rt top_n self) \<and>
   fst (count_words rt (snd (count_words rt self))) = fst (count_words rt self) \<and>
   fst (extract_keywords rt top_n (snd (extract_keywords rt m self))) = fst (extract_keywords rt top_n self)"
  by (simp add: count_words_def extract_keywords_def Let_def)

lemmas eval_defs =
  extract_keywords_def all_words_def filtered_en_words_def zh_words_def filtered_zh_words_def
  env_without_jieba_def env_with_cut_def ascii_lower_def char_cut_def init_def demo_page_def
  of_str_def match_word_def at_boundary_def word_at_def nth_opt_def is_word_def
  is_ascii_letter_def is_ascii_digit_def is_cjk_def is_space_def en_stop_words_def zh_stop_words_def
  keep_zh_def strip_def match_cjk_def
  Counter_def most_common_def sorted_by_count_desc_def

lemma demo_stream:
  "all_words env_without_jieba (self_text demo_page)
     = [of_str ''bbb'', of_str ''aaa'', of_str ''ccc'', of_str ''aaa'', of_str ''bbb'', of_str ''ddd'']"
  by (simp add: eval_defs)

lemma demo_keywords:
  "fst (extract_keywords env_without_jieba 3 demo_page)
     = [(of_str ''bbb'', 2), (of_str ''aaa'', 2), (of_str ''ccc'', 1)]"
  by (simp add: eval_defs)

lemma mixed_stream:
  "all_words env_with_cut (self_text mixed_page) = [of_str ''dog'', of_str ''dog'', [0x72D7], [0x72D7]]"
  by (simp add: eval_defs mixed_page_def)

lemma mixed_keywords:
  "fst (extract_keywords env_with_cut 10 mixed_page) = [(of_str ''dog'', 2), ([0x72D7], 2)]"
  by (simp add: eval_defs mixed_page_def)

theorem extract_keywords_tie_break_witness:
  "0 < length (fst (extract_keywords env_with_cut 10 mixed_page)) \<and>
   1 < length (fst (extract_keywords env_with_cut 10 mixed_page)) \<and>
   snd (fst (extract_keywords env_with_cut 10 mixed_page) ! 0)
     = snd (fst (extract_keywords env_with_cut 10 mixed_page) ! 1) \<and>
   first_index (all_words env_with_cut (self_text mixed_page))
       (fst (fst (extract_keywords env_with_cut 10 mixed_page) ! 0))
     < first_index (all_words env_with_cut (self_text mixed_page))
       (fst (fst (extract_keywords env_with_cut 10 mixed_page) ! 1)) \<and>
   (0::nat) < 1"
  using extract_keywords_tie_break [of 0 env_with_cut 10 mixed_page 1]
  by (simp add: mixed_keywords mixed_stream of_str_def)

theorem extract_keywords_length_sorted_witness:
  "(0::int) < 3 \<and>
   length (fst (extract_keywords env_without_jieba 3 demo_page))
     = min (nat 3) (card (set (all_words env_without_jieba (self_text demo_page)))) \<and>
   sorted_wrt (\<lambda>c d. d \<le> c) (map snd (fst (extract_keywords env_without_jieba 3 demo_page)))"
  using extract_keywords_length_sorted [of 3 env_without_jieba demo_page]
  by simp

theorem extract_keywords_distinct_counts_witness:
  "(of_str ''aaa'', 2) \<in> set (fst (extract_keywords env_without_jieba 3 demo_page)) \<and>
   (0::nat) < 2 \<and> 2 = count_list (all_words env_without_jieba (self_text demo_page)) (of_str ''aaa'')"
  using extract_keywords_distinct_counts [of env_without_jieba 3 demo_page]
  by (simp add: demo_keywords demo_stream of_str_def)

theorem extract_keywords_without_jieba_witness:
  "import_jieba env_without_jieba = Inl ImportError \<and>
   zh_words env_without_jieba (self_text demo_page) = [] \<and>
   fst (extract_keywords env_without_jieba 3 demo_page)
     = most_common 3 (Counter (filtered_en_words env_without_jieba (self_text demo_page)))"
  using extract_keywords_without_jieba [of env_without_jieba demo_page 3]
  by (simp add: env_without_jieba_def)

theorem extract_keywords_nonpositive_witness:
  "(-1::int) \<le> 0 \<and> fst (extract_keywords env_with_cut (-1) demo_page) = []"
  using extract_keywords_nonpositive [of "-1" env_with_cut demo_page]
  by simp

section \<open>Properties of the cleaned text\<close>

lemma split_ws_Nil: "split_ws [] = []"
  by (simp add: split_ws.simps)

lemma split_ws_space: "is_space c \<Longrightarrow> split_ws (c # s) = split_ws s"
  by (subst (1 2) split_ws.simps) simp

lemma split_ws_word:
  "\<not> is_space c \<Longrightarrow>
     split_ws (c # s) = (c # takeWhile (\<lambda>x. \<not> is_space x) s) # split_ws (dropWhile (\<lambda>x. \<not> is_space x) s)"
  by (subst split_ws.simps) simp

lemma is_space_32: "is_space 0x20"
  by (simp add: is_space_def)

lemma split_ws_spaceless: "\<forall>w \<in> set (split_ws s). spaceless w"
proof (induction s rule: split_ws.induct)
  case (1 s)
  show ?case
  proof (cases "dropWhile is_space s")
    case Nil
    have "split_ws s = []"
      by (subst split_ws.simps, subst Nil, simp)
    then show ?thesis by simp
  next
    case (Cons c cs)
    have eq: "split_ws s = (c # takeWhile (\<lambda>x. \<not> is_space x) cs)
                # split_ws (dropWhile (\<lambda>x. \<not> is_space x) cs)"
      by (subst split_ws.simps, subst Cons, simp)
    have "\<not> is_space c"
      using hd_dropWhile [of is_space s] Cons by auto
    moreover have "\<forall>x \<in> set (takeWhile (\<lambda>x. \<not> is_space x) cs). \<not> is_space x"
      using set_takeWhileD by fastforce
    ultimately have "spaceless (c # takeWhile (\<lambda>x. \<not> is_space x) cs)"
      by (simp add: spaceless_def)
    with "1.IH" [OF Cons] show ?thesis
      by (simp add: eq)
  qed
qed

lemma split_ws_word_then:
  assumes w: "spaceless w" and r: "r = [] \<or> is_space (hd r)"
  shows "split_ws (w @ r) = w # split_ws r"
proof -
  from w obtain c cs where wc: "w = c # cs" and c: "\<not> is_space c"
    and cs: "\<forall>x \<in> set cs. \<not> is_space x"
    by (cases w) (auto simp: spaceless_def)
  have tr: "takeWhile (\<lambda>x. \<not> is_space x) r = []" and dr: "dropWhile (\<lambda>x. \<not> is_space x) r = r"
    using r by (cases r; simp)+
  have "takeWhile (\<lambda>x. \<not> is_space x) (cs @ r) = cs"
    using cs tr by simp
  moreover have "dropWhile (\<lambda>x. \<not> is_space x) (cs @ r) = r"
    using cs dr by simp
  ultimately show ?thesis
    using c by (simp add: wc split_ws_word)
qed

lemma split_ws_join:
  "\<forall>w \<in> set ws. spaceless w \<Longrightarrow> split_ws (join [0x20] ws) = ws"
proof (induction "[0x20::nat]" ws rule: join.induct)
  case 1
  show ?case by (simp add: split_ws_Nil)
next
  case (2 x)
  then show ?case
    using split_ws_word_then [of x "[]"] by (simp add: split_ws_Nil)
next
  case (3 x y ys)
  have "split_ws (x @ 0x20 # join [0x20] (y # ys)) = x # split_ws (0x20 # join [0x20] (y # ys))"
    using 3 by (intro split_ws_word_then) (simp_all add: is_space_32)
  also have "\<dots> = x # split_ws (join [0x20] (y # ys))"
    by (simp add: split_ws_space is_space_32)
  finally show ?case using 3 by simp
qed

lemma join_Cons_Cons: "join sep ((c # cs) # ys) = c # tl (join sep ((c # cs) # ys))"
  by (cases ys) simp_all

lemma has_double_space_skip: "c \<noteq> 0x20 \<Longrightarrow> has_double_space (c # s) = has_double_space s"
  by (cases s) simp_all

lemma has_double_space_word:
  "\<forall>c \<in> set w. c \<noteq> 0x20 \<Longrightarrow> has_double_space (w @ r) = has_double_space r"
  by (induction w) (simp_all add: has_double_space_skip)

lemma spaceless_no_32: "spaceless w \<Longrightarrow> \<forall>c \<in> set w. c \<noteq> 0x20"
  using is_space_32 by (auto simp: spaceless_def)

lemma no_double_space_join:
  "\<forall>w \<in> set ws. spaceless w \<Longrightarrow> \<not> has_double_space (join [0x20] ws)"
proof (induction "[0x20::nat]" ws rule: join.induct)
  case 1
  show ?case by simp
next
  case (2 x)
  then show ?case
    using has_double_space_word [OF spaceless_no_32, of x "[]"] by simp
next
  case (3 x y ys)
  from 3 obtain c cs where y: "y = c # cs" and c: "c \<noteq> 0x20"
    using spaceless_no_32 [of y] by (cases y) (auto simp: spaceless_def)
  obtain t where j: "join [0x20] (y # ys) = c # t"
    using join_Cons_Cons [of "[0x20]" c cs ys] y by blast
  have "has_double_space (x @ 0x20 # join [0x20] (y # ys)) = has_double_space (0x20 # c # t)"
    using 3 has_double_space_word [OF spaceless_no_32, of x] by (simp add: j)
  also have "\<dots> = has_double_space (join [0x20] (y # ys))"
    using c by (simp add: j)
  finally show ?case using 3 by simp
qed

lemma join_ends:
  "\<forall>w \<in> set ws. spaceless w \<Longrightarrow>
     join [0x20] ws = [] \<or> (\<not> is_space (hd (join [0x20] ws)) \<and> \<not> is_space (last (join [0x20] ws)))"
proof (induction "[0x20::nat]" ws rule: join.induct)
  case 1
  show ?case by simp
next
  case (2 x)
  then show ?case by (cases x) (auto simp: spaceless_def)
next
  case (3 x y ys)
  from 3 have x: "x \<noteq> []" "\<not> is_space (hd x)"
    by (cases x; simp add: spaceless_def)+
  from 3 obtain c cs where y: "y = c # cs"
    by (cases y) (auto simp: spaceless_def)
  have ne: "join [0x20] (y # ys) \<noteq> []"
    using join_Cons_Cons [of "[0x20]" c cs ys] y by auto
  with 3 have "\<not> is_space (last (join [0x20] (y # ys)))" by simp
  with x ne show ?case by simp
qed

lemma strip_fixed: "s = [] \<or> (\<not> is_space (hd s) \<and> \<not> is_space (last s)) \<Longrightarrow> strip s = s"
proof -
  assume h: "s = [] \<or> (\<not> is_space (hd s) \<and> \<not> is_space (last s))"
  then have a: "dropWhile is_space s = s"
    by (auto simp: dropWhile_eq_self_iff)
  from h have "rev s = [] \<or> \<not> is_space (hd (rev s))"
    by (auto simp: hd_rev)
  then have "dropWhile is_space (rev s) = rev s"
    by (simp only: dropWhile_eq_self_iff)
  with a show ?thesis by (simp add: strip_def)
qed

text \<open>
  Claim C7. Cleaning is idempotent: cleaning the cleaned text of any \<open>x\<close> gives that
  cleaned text back. The cleaned text has no two spaces side by side and no white space at
  its start or end (stripping it changes nothing).
\<close>
theorem cleaned_text_idempotent:
  "cleaned_text (cleaned_text x) = cleaned_text x \<and>
   \<not> has_double_space (cleaned_text x) \<and>
   strip (cleaned_text x) = cleaned_text x"
  using split_ws_spaceless [of x]
  by (simp add: cleaned_text_def split_ws_join no_double_space_join join_ends strip_fixed)

section \<open>The word pattern and the runs of letters\<close>

lemma try_len_inside:
  "j < length s \<Longrightarrow> \<forall>i \<le> j. W (s ! i) \<Longrightarrow> try_len W m j s = None"
proof (induction j)
  case 0
  show ?case by simp
next
  case (Suc j)
  then have "W (s ! j)" "W (s ! Suc j)" by simp_all
  then have "\<not> at_boundary W (Some (s ! j)) (nth_opt s (Suc j))"
    using Suc.prems(1) by (simp add: at_boundary_def word_at_def nth_opt_def)
  moreover have "try_len W m j s = None"
    using Suc by simp
  ultimately show ?case by simp
qed

lemma try_len_run:
  assumes r: "r \<noteq> []" "\<forall>c \<in> set r. W c"
  shows "try_len W m (length r) (r @ rest)
         = (if m \<le> length r \<and> \<not> word_at W (nth_opt rest 0) then Some (length r) else None)"
proof -
  from r obtain k where k: "length r = Suc k" by (cases r) auto
  have inW: "W ((r @ rest) ! i)" if "i \<le> k" for i
    using that k r(2) by (simp add: nth_append)
  have "nth_opt (r @ rest) (Suc k) = nth_opt rest 0"
    using k by (simp add: nth_opt_def nth_append)
  then have b: "at_boundary W (Some ((r @ rest) ! k)) (nth_opt (r @ rest) (Suc k))
          \<longleftrightarrow> \<not> word_at W (nth_opt rest 0)"
    using inW [of k] by (simp add: at_boundary_def word_at_def)
  have "try_len W m k (r @ rest) = None"
    using k inW by (intro try_len_inside) simp_all
  with b show ?thesis
    by (auto simp: k)
qed

lemma findall_word_skip:
  assumes W: "\<And>c. is_ascii_letter c \<Longrightarrow> W c"
  shows "W c \<Longrightarrow> \<forall>x \<in> set r. is_ascii_letter x \<Longrightarrow>
         findall_word W m (Some c) (r @ rest) = findall_word W m (Some (last (c # r))) rest"
proof (induction r arbitrary: c)
  case Nil
  show ?case by simp
next
  case (Cons d r)
  then have d: "W d" using W by simp
  have "match_word W m (Some c) (d # r @ rest) = None"
    using Cons.prems(1) d by (simp add: match_word_def at_boundary_def word_at_def nth_opt_def)
  then have "findall_word W m (Some c) ((d # r) @ rest) = findall_word W m (Some d) (r @ rest)"
    by simp
  also have "\<dots> = findall_word W m (Some (last (d # r))) rest"
    using Cons.IH [OF d] Cons.prems(2) by simp
  finally show ?case by simp
qed

lemma match_word_run:
  assumes W: "\<And>c. is_ascii_letter c \<Longrightarrow> W c"
    and c: "is_ascii_letter c"
  shows "match_word W m p (c # cs)
         = (if bounded_run W m (p, c # takeWhile is_ascii_letter cs, nth_opt (dropWhile is_ascii_letter cs) 0)
            then Some (Suc (length (takeWhile is_ascii_letter cs))) else None)"
proof -
  let ?r = "c # takeWhile is_ascii_letter cs" and ?rest = "dropWhile is_ascii_letter cs"
  have s: "c # cs = ?r @ ?rest" by simp
  have rW: "\<forall>x \<in> set ?r. W x"
    using W c by (auto dest: set_takeWhileD)
  have "try_len W m (length ?r) (?r @ ?rest)
          = (if m \<le> length ?r \<and> \<not> word_at W (nth_opt ?rest 0) then Some (length ?r) else None)"
    by (rule try_len_run [OF _ rW]) simp
  then have t: "try_len W m (Suc (length (takeWhile is_ascii_letter cs))) (c # cs)
          = (if m \<le> length ?r \<and> \<not> word_at W (nth_opt ?rest 0) then Some (length ?r) else None)"
    by (simp del: try_len.simps)
  have "at_boundary W p (nth_opt (c # cs) 0) \<longleftrightarrow> \<not> word_at W p"
    using W [OF c] by (simp add: at_boundary_def word_at_def nth_opt_def)
  then show ?thesis
    using c t by (simp add: match_word_def bounded_run_def del: try_len.simps)
qed

lemma findall_word_runs:
  assumes W: "\<And>c. is_ascii_letter c \<Longrightarrow> W c" and m: "0 < m"
  shows "findall_word W m p s = map (\<lambda>(p, r, n). r) (filter (bounded_run W m) (letter_runs p s))"
proof (induction p s rule: letter_runs.induct)
  case (1 p)
  show ?case by simp
next
  case (2 p c cs)
  show ?case
  proof (cases "is_ascii_letter c")
    case False
    then have "match_word W m p (c # cs) = None"
      by (simp add: match_word_def)
    then show ?thesis
      using False 2(2) by simp
  next
    case True
    let ?t = "takeWhile is_ascii_letter cs"
    let ?r = "c # ?t" and ?rest = "dropWhile is_ascii_letter cs"
    have IH: "findall_word W m (Some (last ?r)) ?rest
              = map (\<lambda>(p, r, n). r) (filter (bounded_run W m) (letter_runs (Some (last ?r)) ?rest))"
      using 2(1) [OF True refl refl] .
    have runs: "letter_runs p (c # cs) = (p, ?r, nth_opt ?rest 0) # letter_runs (Some (last ?r)) ?rest"
      using True by (simp add: Let_def)
    show ?thesis
    proof (cases "bounded_run W m (p, ?r, nth_opt ?rest 0)")
      case b: True
      have mw: "match_word W m p (c # cs) = Some (Suc (length ?t))"
        using match_word_run [OF W True, where m = m and p = p and cs = cs] b by simp
      have tk: "take (length ?t) cs = ?t" and dr: "drop (length ?t) cs = ?rest"
        by (simp_all add: takeWhile_eq_take [symmetric] dropWhile_eq_drop [symmetric])
      have la: "(c # cs) ! length ?t = last ?r"
      proof (cases ?t)
        case Nil
        then show ?thesis by simp
      next
        case (Cons a as)
        have "(c # cs) ! length ?t = (c # take (length ?t) cs) ! length ?t"
          using Cons by (simp add: nth_Cons')
        then show ?thesis
          using tk by (simp add: last_conv_nth)
      qed
      have "findall_word W m p (c # cs) = ?r # findall_word W m (Some (last ?r)) ?rest"
        by (simp add: mw tk dr la del: last.simps)
      then show ?thesis
        using b IH runs by simp
    next
      case nb: False
      have mw: "match_word W m p (c # cs) = None"
        using match_word_run [OF W True, where m = m and p = p and cs = cs] nb by simp
      have "findall_word W m p (c # cs) = findall_word W m (Some c) (?t @ ?rest)"
        by (simp add: mw)
      also have "\<dots> = findall_word W m (Some (last ?r)) ?rest"
        by (rule findall_word_skip [OF W]) (auto simp: W True dest: set_takeWhileD)
      finally show ?thesis
        using nb IH runs by simp
    qed
  qed
qed

lemma letter_is_word: "is_ascii_letter c \<Longrightarrow> is_word rt c"
  by (auto simp: is_word_def is_ascii_letter_def)

lemma letter_runs_nonempty: "(q, r, n) \<in> set (letter_runs p s) \<Longrightarrow> r \<noteq> []"
  by (induction p s rule: letter_runs.induct) (auto simp: Let_def split: if_splits)

lemma bounded_run_1:
  "filter (bounded_run W 1) (letter_runs p s)
     = filter (\<lambda>(p, r, n). \<not> word_at W p \<and> \<not> word_at W n) (letter_runs p s)"
proof (rule filter_cong [OF refl])
  fix x assume x: "x \<in> set (letter_runs p s)"
  obtain q r n where "x = (q, r, n)" by (cases x)
  with x letter_runs_nonempty [of q r n p s] have "1 \<le> length r"
    by (cases r) simp_all
  with \<open>x = (q, r, n)\<close> show "bounded_run W 1 x = (case x of (p, r, n) \<Rightarrow> \<not> word_at W p \<and> \<not> word_at W n)"
    by (simp add: bounded_run_def)
qed

text \<open>
  Claim C4, as the code has it. \<open>english_words\<close> is the number of maximal runs of ASCII
  letters of the cleaned text that have no word character on either side: each neighbour
  is an end of the text or a character that is not a letter, a digit, an underscore or an
  alphanumeric character above U+007F. Either case counts, and one letter is enough.
\<close>
theorem english_words_bounded_runs:
  "english_words (fst (count_words rt self))
     = length (filter (\<lambda>(p, r, n). \<not> word_at (is_word rt) p \<and> \<not> word_at (is_word rt) n)
                (letter_runs None (cleaned_text (self_text self))))"
proof -
  let ?t = "cleaned_text (self_text self)"
  have fw: "findall_word (is_word rt) 1 None ?t
          = map (\<lambda>(p, r, n). r) (filter (bounded_run (is_word rt) 1) (letter_runs None ?t))"
    by (rule findall_word_runs) (simp_all add: letter_is_word)
  have "english_words (fst (count_words rt self)) = length (findall_word (is_word rt) 1 None ?t)"
    by (simp add: count_words_def Let_def)
  also have "\<dots> = length (filter (bounded_run (is_word rt) 1) (letter_runs None ?t))"
    by (simp only: fw length_map)
  also have "\<dots> = length (filter (\<lambda>(p, r, n). \<not> word_at (is_word rt) p \<and> \<not> word_at (is_word rt) n)
                (letter_runs None ?t))"
    by (simp only: bounded_run_1)
  finally show ?thesis .
qed

lemmas split_ws_eval = split_ws_Nil split_ws_space split_ws_word cleaned_text_def

text \<open>
  Claim C4 as stated counts every maximal run of ASCII letters (a run is always bounded by
  non-letters or by the ends of the text). On the text \<open>abc1\<close> there is one such run,
  but \<open>english_words\<close> is 0, because the digit behind the run is a word character and
  \<open>\b\<close> does not hold there.
\<close>
theorem english_words_all_runs_counterexample:
  "english_words (fst (count_words env_without_jieba digit_page))
     \<noteq> length (letter_runs None (cleaned_text (self_text digit_page)))"
  by (simp add: count_words_def Let_def digit_page_def split_ws_eval eval_defs)

lemma digit_page_values:
  "english_words (fst (count_words env_without_jieba digit_page)) = 0"
  "letter_runs None (cleaned_text (self_text digit_page)) = [(None, of_str ''abc'', Some 0x31)]"
  by (simp_all add: count_words_def Let_def digit_page_def split_ws_eval eval_defs)

lemma keep_zh_iff:
  "keep_zh w \<longleftrightarrow> strip w \<noteq> [] \<and> w \<notin> zh_stop_words \<and> (\<exists>c cs. w = c # cs \<and> is_cjk c)"
  by (cases w) (auto simp: keep_zh_def match_cjk_def split: list.splits)

text \<open>
  Claim C1 says that a segment is kept only if all its characters lie in U+4E00..U+9FFF,
  and that a segment with a Latin letter is dropped. \<open>re.match\<close> anchors the pattern at
  the start of the segment only, so the code keeps the segment U+5361 U+62C9 O K, which
  holds two Latin letters, and reports it as a keyword.
\<close>
theorem filtered_zh_words_keeps_mixed_segment:
  "zh_words env_with_dict (self_text karaoke_page) = [karaoke] \<and>
   \<not> list_all is_cjk karaoke \<and> is_ascii_letter (karaoke ! 2) \<and>
   filtered_zh_words [karaoke] = [karaoke] \<and>
   fst (extract_keywords env_with_dict 10 karaoke_page) = [(karaoke, 1)]"
  by (simp add: karaoke_page_def karaoke_def env_with_dict_def dict_cut_def eval_defs)

theorem cleaned_text_idempotent_witness:
  "cleaned_text (of_str ''  ab   c '') = of_str ''ab c'' \<and>
   cleaned_text (cleaned_text (of_str ''  ab   c '')) = cleaned_text (of_str ''  ab   c '')"
  using cleaned_text_idempotent [of "of_str ''  ab   c ''"]
  by (simp add: split_ws_eval eval_defs)

end
